theory Spec2Isabelle
  imports Main
begin

section \<open>Exceptions and small Python primitives\<close>

text \<open>
  Python strings are modelled as \<^typ>\<open>string\<close>; one \<^typ>\<open>char\<close> stands for one
  character of the Python string (code points below 256). The exceptions the core raises
  are values of \<open>exn\<close>; a function that may raise returns \<open>exn + 'a\<close>, \<open>Inl\<close> being
  the raise. Exception messages are not modelled.
\<close>

datatype exn = ValueError | RuntimeError | KeyError | IndexError | ZeroDivisionError

abbreviation BS :: char where "BS \<equiv> CHR 0x5C"  \<comment> \<open>the backslash\<close>
abbreviation NL :: char where "NL \<equiv> CHR 0x0A"  \<comment> \<open>the line feed\<close>

text \<open>\<^verbatim>\<open>xs.index(x)\<close>: position of the first occurrence, \<^verbatim>\<open>ValueError\<close> when absent.\<close>

fun index_from :: "'a list \<Rightarrow> 'a \<Rightarrow> nat \<Rightarrow> exn + nat" where
  "index_from [] x k = Inl ValueError"
| "index_from (y # ys) x k = (if y = x then Inr k else index_from ys x (Suc k))"

definition py_index :: "'a list \<Rightarrow> 'a \<Rightarrow> exn + nat" where
  "py_index xs x = index_from xs x 0"

section \<open>Chord\<close>

datatype chord = Chord (symbol: string)

text \<open>\<^verbatim>\<open>Chord.convert\<close>: every \<^verbatim>\<open>#\<close> becomes backslash, \<^verbatim>\<open>s\<close>, space.\<close>

fun convert :: "string \<Rightarrow> string" where
  "convert [] = []"
| "convert (c # cs) = (if c \<noteq> CHR ''#'' then [c] else BS # ''s '') @ convert cs"

section \<open>Notes: the transposition engine\<close>

definition notes_sharp :: "string list" where
  "notes_sharp = [''C'', ''C#'', ''D'', ''D#'', ''E'', ''F'', ''F#'', ''G'', ''G#'', ''A'', ''A#'', ''B'']"

definition notes_flat :: "string list" where
  "notes_flat = [''C'', ''Db'', ''D'', ''Eb'', ''E'', ''F'', ''Gb'', ''G'', ''Ab'', ''A'', ''Bb'', ''Cb'']"

definition sharp_keys :: "string list" where
  "sharp_keys = [''C'', ''G'', ''D'', ''A'', ''E'', ''B'', ''F#'', ''C#'', ''G#'', ''D#'', ''A#'']"

definition flat_keys :: "string list" where
  "flat_keys = [''F'', ''Bb'', ''Eb'', ''Ab'', ''Db'', ''Gb'']"

definition is_sharp_key :: "string \<Rightarrow> bool" where
  "is_sharp_key key = (key \<in> set sharp_keys)"

definition is_flat_key :: "string \<Rightarrow> bool" where
  "is_flat_key key = (key \<in> set flat_keys)"

record Notes =
  input_notes :: "string list"
  output_notes :: "string list"
  semitones_up :: int

text \<open>\<^verbatim>\<open>Notes.__get_semitones_up\<close>, on the two tables chosen by the constructor.\<close>

definition get_semitones_up :: "string list \<Rightarrow> string list \<Rightarrow> string \<Rightarrow> string \<Rightarrow> exn + int" where
  "get_semitones_up inp outp old_key new_key =
     (case py_index outp new_key of
        Inl e \<Rightarrow> Inl e
      | Inr o_idx \<Rightarrow>
          (case py_index inp old_key of
             Inl e \<Rightarrow> Inl e
           | Inr i_idx \<Rightarrow>
               if length outp = 0 then Inl ZeroDivisionError
               else Inr ((int o_idx - int i_idx) mod int (length outp))))"

text \<open>\<^verbatim>\<open>Notes.__init__\<close>.\<close>

definition Notes_init :: "string \<Rightarrow> string \<Rightarrow> exn + Notes" where
  "Notes_init input_key output_key =
     (if \<not> is_sharp_key input_key \<and> \<not> is_flat_key input_key then Inl ValueError
      else if \<not> is_sharp_key output_key \<and> \<not> is_flat_key output_key then Inl ValueError
      else
        let inp = (if is_sharp_key input_key then notes_sharp else notes_flat);
            outp = (if is_sharp_key output_key then notes_sharp else notes_flat)
        in case get_semitones_up inp outp input_key output_key of
             Inl e \<Rightarrow> Inl e
           | Inr s \<Rightarrow> Inr \<lparr>input_notes = inp, output_notes = outp, semitones_up = s\<rparr>)"

text \<open>\<^verbatim>\<open>Notes.__transpose\<close>: one note, looked up in the input table and re-spelled from the
  output table.\<close>

definition transpose_note :: "Notes \<Rightarrow> string \<Rightarrow> exn + string" where
  "transpose_note n note =
     (case py_index (input_notes n) note of
        Inl e \<Rightarrow> Inl e
      | Inr idx \<Rightarrow>
          if length (output_notes n) = 0 then Inl ZeroDivisionError
          else Inr (output_notes n !
                      nat ((int idx + semitones_up n) mod int (length (output_notes n)))))"

text \<open>The two membership tests of \<^verbatim>\<open>Notes.transpose\<close>: \<^verbatim>\<open>chord[i] in "ABCDEFG"\<close> and
  \<^verbatim>\<open>chord[i + 1] in {"#", "b"}\<close>.\<close>

definition note_letter :: "char \<Rightarrow> bool" where
  "note_letter c = (c \<in> set ''ABCDEFG'')"

definition accidental :: "char \<Rightarrow> bool" where
  "accidental c = (c \<in> {CHR ''#'', CHR ''b''})"

text \<open>The \<^verbatim>\<open>while\<close> loop of \<^verbatim>\<open>Notes.transpose\<close>: \<open>i\<close> is the loop index, \<open>new_chord\<close>
  the string built so far.\<close>

function transpose_loop :: "Notes \<Rightarrow> string \<Rightarrow> nat \<Rightarrow> string \<Rightarrow> exn + string" where
  "transpose_loop n c i new_chord =
     (if i < length c then
        (if note_letter (c ! i) then
           (if i + 1 < length c \<and> accidental (c ! (i + 1)) then
              (case transpose_note n (take 2 (drop i c)) of
                 Inl e \<Rightarrow> Inl e
               | Inr t \<Rightarrow> transpose_loop n c (i + 2) (new_chord @ t))
            else
              (case transpose_note n [c ! i] of
                 Inl e \<Rightarrow> Inl e
               | Inr t \<Rightarrow> transpose_loop n c (i + 1) (new_chord @ t)))
         else transpose_loop n c (i + 1) (new_chord @ [c ! i]))
      else Inr new_chord)"
  by pat_completeness auto
termination
  by (relation "measure (\<lambda>(n, c, i, new_chord). length c - i)") auto

declare transpose_loop.simps [simp del]

definition transpose :: "Notes \<Rightarrow> chord \<Rightarrow> exn + string" where
  "transpose n ch = transpose_loop n (symbol ch) 0 []"

text \<open>The spec's \<^verbatim>\<open>transpose(chord, input_key, output_key)\<close>: build the \<^verbatim>\<open>Notes\<close>
  instance, then transpose with it.\<close>

definition transpose_between :: "string \<Rightarrow> string \<Rightarrow> string \<Rightarrow> exn + string" where
  "transpose_between chord_text input_key output_key =
     (case Notes_init input_key output_key of
        Inl e \<Rightarrow> Inl e
      | Inr n \<Rightarrow> transpose n (Chord chord_text))"

section \<open>More Python primitives: join, split, strip, str\<close>

text \<open>\<^verbatim>\<open>sep.join(xs)\<close>.\<close>

fun py_join :: "string \<Rightarrow> string list \<Rightarrow> string" where
  "py_join sep [] = []"
| "py_join sep [x] = x"
| "py_join sep (x # y # ys) = x @ sep @ py_join sep (y # ys)"

text \<open>\<^verbatim>\<open>s.split(d)\<close> for a one-character separator: the result is never empty, and two
  adjacent separators give an empty piece.\<close>

fun py_split :: "char \<Rightarrow> string \<Rightarrow> string list" where
  "py_split d [] = [[]]"
| "py_split d (c # cs) =
     (if c = d then [] # py_split d cs
      else (case py_split d cs of
              [] \<Rightarrow> [[c]]
            | w # ws \<Rightarrow> (c # w) # ws))"

text \<open>\<^verbatim>\<open>str.isspace\<close> on one character, for code points below 256.\<close>

definition is_space :: "char \<Rightarrow> bool" where
  "is_space c = (c \<in> set [CHR 0x09, CHR 0x0A, CHR 0x0B, CHR 0x0C, CHR 0x0D,
                            CHR 0x1C, CHR 0x1D, CHR 0x1E, CHR 0x1F, CHR 0x20, CHR 0x85, CHR 0xA0])"

definition rstrip :: "string \<Rightarrow> string" where
  "rstrip s = rev (dropWhile is_space (rev s))"

definition strip :: "string \<Rightarrow> string" where
  "strip s = rstrip (dropWhile is_space s)"

text \<open>\<^verbatim>\<open>s[a:b]\<close> for \<open>0 \<le> a\<close>, \<open>0 \<le> b\<close>.\<close>

definition slice :: "string \<Rightarrow> nat \<Rightarrow> nat \<Rightarrow> string" where
  "slice s a b = take (b - a) (drop a s)"

text \<open>\<^verbatim>\<open>str(i)\<close> of an integer, as \<^verbatim>\<open>format\<close> prints it.\<close>

definition digit_char :: "nat \<Rightarrow> char" where
  "digit_char d = char_of (48 + d)"

function nat_digits :: "nat \<Rightarrow> string" where
  "nat_digits k = (if k < 10 then [digit_char k] else nat_digits (k div 10) @ [digit_char (k mod 10)])"
  by pat_completeness auto
termination
  by (relation "measure id") auto

declare nat_digits.simps [simp del]

definition str_int :: "int \<Rightarrow> string" where
  "str_int i = (if i < 0 then CHR ''-'' # nat_digits (nat (- i)) else nat_digits (nat i))"

text \<open>\<^verbatim>\<open>int(c)\<close> of a one-digit string.\<close>

definition int_of_digit :: "char \<Rightarrow> int" where
  "int_of_digit c = int (of_char c) - 48"

section \<open>Regular expressions\<close>

text \<open>
  The patterns of the source are all of the shape \<^verbatim>\<open>^R$\<close> handed to \<^verbatim>\<open>re.match\<close>, with
  \<open>R\<close> built from literals, character classes, alternation, \<^verbatim>\<open>?\<close>, \<^verbatim>\<open>+\<close> and \<^verbatim>\<open>*\<close>.
  \<open>R\<close> is a term of \<open>rexp\<close>, matched by derivatives; \<^verbatim>\<open>$\<close> holds at the end of the string
  and just before a line feed that ends the string.
\<close>

datatype rexp = Zero | One | Sym char | Cls string | Alt rexp rexp | Seq rexp rexp | Star rexp

fun nullable :: "rexp \<Rightarrow> bool" where
  "nullable Zero = False"
| "nullable One = True"
| "nullable (Sym c) = False"
| "nullable (Cls cs) = False"
| "nullable (Alt r s) = (nullable r \<or> nullable s)"
| "nullable (Seq r s) = (nullable r \<and> nullable s)"
| "nullable (Star r) = True"

fun deriv :: "char \<Rightarrow> rexp \<Rightarrow> rexp" where
  "deriv a Zero = Zero"
| "deriv a One = Zero"
| "deriv a (Sym c) = (if a = c then One else Zero)"
| "deriv a (Cls cs) = (if a \<in> set cs then One else Zero)"
| "deriv a (Alt r s) = Alt (deriv a r) (deriv a s)"
| "deriv a (Seq r s) =
     (if nullable r then Alt (Seq (deriv a r) s) (deriv a s) else Seq (deriv a r) s)"
| "deriv a (Star r) = Seq (deriv a r) (Star r)"

fun matches :: "rexp \<Rightarrow> string \<Rightarrow> bool" where
  "matches r [] = nullable r"
| "matches r (c # cs) = matches (deriv c r) cs"

definition Lit :: "string \<Rightarrow> rexp" where
  "Lit s = foldr (\<lambda>c r. Seq (Sym c) r) s One"

definition Opt :: "rexp \<Rightarrow> rexp" where
  "Opt r = Alt r One"

definition Plus :: "rexp \<Rightarrow> rexp" where
  "Plus r = Seq r (Star r)"

definition digit :: rexp where
  "digit = Cls ''0123456789''"

text \<open>\<^verbatim>\<open>re.match("^R$", s)\<close>: the text matched, or \<open>None\<close>.\<close>

definition re_match :: "rexp \<Rightarrow> string \<Rightarrow> string option" where
  "re_match r s =
     (if matches r s then Some s
      else if s \<noteq> [] \<and> last s = NL \<and> matches r (butlast s) then Some (butlast s)
      else None)"

section \<open>Character and the three kinds of Line\<close>

datatype character = Character (get_char: string) (chord_of: "chord option")

definition has_chord :: "character \<Rightarrow> bool" where
  "has_chord c = (chord_of c \<noteq> None)"

datatype line = MusicLine "chord list list" | BreakLine | Lyric "character list"

definition MAX_LENGTH :: int where
  "MAX_LENGTH = 52"

fun has_lyrics :: "line \<Rightarrow> bool" where
  "has_lyrics (Lyric cs) = True"
| "has_lyrics (MusicLine ms) = False"
| "has_lyrics BreakLine = False"

fun get_lyrics :: "line \<Rightarrow> string" where
  "get_lyrics (Lyric cs) = concat (map get_char cs)"
| "get_lyrics (MusicLine ms) = []"
| "get_lyrics BreakLine = []"

fun is_break :: "line \<Rightarrow> bool" where
  "is_break BreakLine = True"
| "is_break (MusicLine ms) = False"
| "is_break (Lyric cs) = False"

subsection \<open>Lyric.parse\<close>

text \<open>The inner \<^verbatim>\<open>while line[i] != "]"\<close> loop: the index of the closing bracket, or the
  \<^verbatim>\<open>ValueError\<close> raised when the end of the line comes first.\<close>

function find_close :: "string \<Rightarrow> nat \<Rightarrow> exn + nat" where
  "find_close ln i =
     (if i \<ge> length ln then Inl IndexError
      else if ln ! i \<noteq> CHR '']'' then
        (if i + 1 \<ge> length ln then Inl ValueError else find_close ln (i + 1))
      else Inr i)"
  by pat_completeness auto
termination
  by (relation "measure (\<lambda>(ln, i). length ln - i)") auto

declare find_close.simps [simp del]

lemma find_close_ge: "find_close ln i = Inr e \<Longrightarrow> i \<le> e"
proof (induction ln i rule: find_close.induct)
  case (1 ln i)
  show ?case
  proof (cases "i < length ln \<and> ln ! i \<noteq> CHR '']'' \<and> i + 1 < length ln")
    case True
    with "1.prems" have "find_close ln (i + 1) = Inr e"
      by (simp add: find_close.simps [of ln i])
    with True "1.IH" have "i + 1 \<le> e" by simp
    then show ?thesis by simp
  next
    case False
    with "1.prems" show ?thesis
      by (auto simp: find_close.simps [of ln i] split: if_splits)
  qed
qed

text \<open>The outer \<^verbatim>\<open>while i < len(line)\<close> loop, on the line already stripped.\<close>

function parse_loop :: "string \<Rightarrow> nat \<Rightarrow> character list \<Rightarrow> exn + line" where
  "parse_loop ln i line_tokens =
     (if i < length ln then
        (if ln ! i = CHR ''['' then
           (let start_chord = i + 1 in
            if i \<ge> length ln then Inl ValueError
            else
              (case find_close ln i of
                 Inl e \<Rightarrow> Inl e
               | Inr end_chord \<Rightarrow>
                   (if end_chord + 1 \<ge> length ln \<or> ln ! (end_chord + 1) = CHR ''['' then
                      parse_loop ln (end_chord + 1)
                        (line_tokens @ [Character [] (Some (Chord (slice ln start_chord end_chord)))])
                    else
                      parse_loop ln (end_chord + 2)
                        (line_tokens @ [Character [ln ! (end_chord + 1)]
                                          (Some (Chord (slice ln start_chord end_chord)))]))))
         else parse_loop ln (i + 1) (line_tokens @ [Character [ln ! i] None]))
      else Inr (Lyric line_tokens))"
  by pat_completeness auto
termination
proof (relation "measure (\<lambda>(ln, i, line_tokens). length ln - i)", goal_cases)
  case 1
  show ?case by simp
next
  case (2 ln i line_tokens start_chord end_chord)
  then show ?case using find_close_ge [of ln i end_chord] by auto
next
  case (3 ln i line_tokens start_chord end_chord)
  then show ?case using find_close_ge [of ln i end_chord] by auto
next
  case (4 ln i line_tokens)
  then show ?case by auto
qed

declare parse_loop.simps [simp del]

definition Lyric_parse :: "string \<Rightarrow> exn + line" where
  "Lyric_parse ln = parse_loop (rstrip ln) 0 []"

subsection \<open>MusicLine and BreakLine: recognition and parsing\<close>

text \<open>\<^verbatim>\<open>^\|:?([A-Ga-z0-9#/ ]+:?\|)+( \(x(\d)+\))?$\<close>\<close>

definition music_line_rexp :: rexp where
  "music_line_rexp =
     Seq (Sym (CHR ''|''))
       (Seq (Opt (Sym (CHR '':'')))
          (Seq (Plus (Seq (Plus (Cls ''ABCDEFGabcdefghijklmnopqrstuvwxyz0123456789#/ ''))
                       (Seq (Opt (Sym (CHR '':''))) (Sym (CHR ''|'')))))
             (Opt (Seq (Lit '' (x'') (Seq (Plus digit) (Sym (CHR '')'')))))))"

definition is_music_line :: "string \<Rightarrow> bool" where
  "is_music_line ln = (re_match music_line_rexp ln \<noteq> None)"

text \<open>\<^verbatim>\<open>(-)*$\<close>\<close>

definition is_break_line :: "string \<Rightarrow> bool" where
  "is_break_line ln = (re_match (Star (Sym (CHR ''-''))) ln \<noteq> None)"

text \<open>The \<^verbatim>\<open>for m in line_split[1:]\<close> loop of \<^verbatim>\<open>MusicLine.parse\<close>; \<open>built\<close> is the
  list \<^verbatim>\<open>measures\<close> built so far.\<close>

fun measures_loop :: "string list \<Rightarrow> chord list list \<Rightarrow> chord list list" where
  "measures_loop [] built = built"
| "measures_loop (m # ms) built =
     (if m = [NL] then measures_loop ms built
      else if CHR ''/'' \<in> set m then
        measures_loop ms (built @ [map Chord (py_split (CHR '' '') m)])
      else measures_loop ms (built @ [[Chord (strip m)]]))"

definition MusicLine_parse :: "string \<Rightarrow> line" where
  "MusicLine_parse ln = MusicLine (measures_loop (tl (py_split (CHR ''|'') ln)) [])"

text \<open>\<^verbatim>\<open>Line.parse\<close>: the first recogniser that accepts the line decides.\<close>

definition Line_parse :: "string \<Rightarrow> exn + line" where
  "Line_parse ln =
     (if is_music_line ln then Inr (MusicLine_parse ln)
      else if is_break_line ln then Inr BreakLine
      else Lyric_parse ln)"

section \<open>Chordsheet rendering of chords, characters and lines\<close>

text \<open>A \<^verbatim>\<open>for\<close> loop or comprehension whose body may raise: the first raise ends it.\<close>

fun try_map :: "('a \<Rightarrow> exn + 'b) \<Rightarrow> 'a list \<Rightarrow> exn + 'b list" where
  "try_map f [] = Inr []"
| "try_map f (x # xs) =
     (case f x of
        Inl e \<Rightarrow> Inl e
      | Inr y \<Rightarrow> (case try_map f xs of Inl e \<Rightarrow> Inl e | Inr ys \<Rightarrow> Inr (y # ys)))"

text \<open>\<^verbatim>\<open>Chord.generate_chordsheet\<close>\<close>

definition chord_generate_chordsheet :: "Notes \<Rightarrow> chord \<Rightarrow> exn + string" where
  "chord_generate_chordsheet n ch =
     (case transpose n ch of
        Inl e \<Rightarrow> Inl e
      | Inr t \<Rightarrow> Inr (BS # ''c{'' @ convert t @ ''}''))"

text \<open>\<^verbatim>\<open>Character.generate_chordsheet\<close>\<close>

definition character_generate_chordsheet :: "Notes \<Rightarrow> character \<Rightarrow> exn + string" where
  "character_generate_chordsheet n c =
     (case chord_of c of
        None \<Rightarrow> Inr (get_char c)
      | Some ch \<Rightarrow>
          (case chord_generate_chordsheet n ch of
             Inl e \<Rightarrow> Inl e
           | Inr t \<Rightarrow> Inr (t @ get_char c)))"

text \<open>\<^verbatim>\<open>Character.get_len_transposed_chord\<close>; \<open>None\<close> is Python's \<^verbatim>\<open>None\<close>, returned
  when the character has no chord.\<close>

definition get_len_transposed_chord :: "Notes \<Rightarrow> character \<Rightarrow> exn + int option" where
  "get_len_transposed_chord n c =
     (case chord_of c of
        None \<Rightarrow> Inr None
      | Some ch \<Rightarrow>
          (case transpose n ch of
             Inl e \<Rightarrow> Inl e
           | Inr t \<Rightarrow> Inr (Some (int (length t)))))"

text \<open>The local variables of \<^verbatim>\<open>Lyric.generate_chordsheet\<close>; \<open>out\<close> is the source's
  \<^verbatim>\<open>output\<close>.\<close>

record lyric_state =
  out :: string
  characters_since_chord :: int
  len_last_chord :: "int option"
  total_len :: int

definition lyric_init :: lyric_state where
  "lyric_init = \<lparr>out = [], characters_since_chord = 0, len_last_chord = None, total_len = 0\<rparr>"

text \<open>The spacing inserted before a chord that follows the previous one too closely.\<close>

definition add_spacing :: "lyric_state \<Rightarrow> lyric_state" where
  "add_spacing st =
     (case len_last_chord st of
        None \<Rightarrow> st
      | Some l \<Rightarrow>
          if characters_since_chord st \<le> l then
            st\<lparr>out := out st @ BS # ''spv{'' @ str_int (l - characters_since_chord st + 1) @ ''}'',
               total_len := total_len st + (l - characters_since_chord st + 1)\<rparr>
          else st)"

text \<open>One pass of the \<^verbatim>\<open>for c in self.characters\<close> loop.\<close>

definition lyric_step :: "Notes \<Rightarrow> lyric_state \<Rightarrow> character \<Rightarrow> exn + lyric_state" where
  "lyric_step n st c =
     (case (if has_chord c then
              (case get_len_transposed_chord n c of
                 Inl e \<Rightarrow> Inl e
               | Inr l \<Rightarrow> Inr ((add_spacing st)\<lparr>characters_since_chord := 0, len_last_chord := l\<rparr>))
            else Inr st) of
        Inl e \<Rightarrow> Inl e
      | Inr st1 \<Rightarrow>
          (case character_generate_chordsheet n c of
             Inl e \<Rightarrow> Inl e
           | Inr t \<Rightarrow>
               Inr (st1\<lparr>characters_since_chord := characters_since_chord st1 + 1,
                        out := out st1 @ t,
                        total_len := total_len st1 + 1\<rparr>)))"

fun lyric_loop :: "Notes \<Rightarrow> lyric_state \<Rightarrow> character list \<Rightarrow> exn + lyric_state" where
  "lyric_loop n st [] = Inr st"
| "lyric_loop n st (c # cs) =
     (case lyric_step n st c of
        Inl e \<Rightarrow> Inl e
      | Inr st' \<Rightarrow> lyric_loop n st' cs)"

text \<open>The update of \<^verbatim>\<open>total_len\<close> after the loop: the value compared with
  \<^verbatim>\<open>Line.MAX_LENGTH\<close>.\<close>

definition final_total_len :: "lyric_state \<Rightarrow> int" where
  "final_total_len st =
     (case len_last_chord st of
        None \<Rightarrow> total_len st
      | Some l \<Rightarrow> total_len st + max 0 (l - characters_since_chord st))"

definition lyric_generate_chordsheet :: "Notes \<Rightarrow> character list \<Rightarrow> exn + string" where
  "lyric_generate_chordsheet n cs =
     (case lyric_loop n lyric_init cs of
        Inl e \<Rightarrow> Inl e
      | Inr st \<Rightarrow>
          if final_total_len st > MAX_LENGTH then Inr (BS # ''fit{'' @ out st @ ''}'')
          else Inr (out st))"

text \<open>\<^verbatim>\<open>MusicLine.generate_chordsheet\<close>\<close>

definition music_generate_chordsheet :: "Notes \<Rightarrow> chord list list \<Rightarrow> exn + string" where
  "music_generate_chordsheet n mss =
     (case try_map (\<lambda>m. case try_map (\<lambda>ch. case transpose n ch of
                                               Inl e \<Rightarrow> Inl e
                                             | Inr t \<Rightarrow> Inr (convert t)) m of
                           Inl e \<Rightarrow> Inl e
                         | Inr ts \<Rightarrow> Inr (py_join '' '' ts)) mss of
        Inl e \<Rightarrow> Inl e
      | Inr ms \<Rightarrow> Inr (''| '' @ py_join '' | '' ms @ '' |''))"

fun generate_chordsheet :: "Notes \<Rightarrow> line \<Rightarrow> exn + string" where
  "generate_chordsheet n (Lyric cs) = lyric_generate_chordsheet n cs"
| "generate_chordsheet n (MusicLine ms) = music_generate_chordsheet n ms"
| "generate_chordsheet n BreakLine = Inr []"

section \<open>Section\<close>

record Section =
  name :: string
  lines :: "line list"

text \<open>What \<^verbatim>\<open>Section.get_wrapper\<close> returns: a pair of begin and end markers, or the one
  repeat macro.\<close>

datatype wrapper = BeginEnd string string | Repeat string

definition suffixed :: "rexp \<Rightarrow> rexp" where
  \<comment> \<open>\<^verbatim>\<open>R( \d)?\<close>\<close>
  "suffixed r = Seq r (Opt (Seq (Sym (CHR '' '')) digit))"

definition mk_wrapper :: "bool \<Rightarrow> string \<Rightarrow> string \<Rightarrow> string \<Rightarrow> wrapper" where
  \<comment> \<open>\<^verbatim>\<open>(b, e) if not repeat else r\<close>\<close>
  "mk_wrapper repeat b e r = (if \<not> repeat then BeginEnd b e else Repeat r)"

definition get_wrapper :: "Section \<Rightarrow> bool \<Rightarrow> exn + wrapper" where
  "get_wrapper s repeat =
     (if re_match (Lit ''Intro'') (name s) \<noteq> None then
        Inr (mk_wrapper repeat (BS # ''bi'') (BS # ''ei'') (BS # ''ri''))
      else if re_match (suffixed (Lit ''Verse'')) (name s) \<noteq> None then
        Inr (mk_wrapper repeat (BS # ''bv'') (BS # ''ev'') (BS # ''rv''))
      else if re_match (suffixed (Alt (Lit ''Prechorus'') (Alt (Lit ''Pre-chorus'') (Lit ''Pre-Chorus''))))
                (name s) \<noteq> None then
        Inr (mk_wrapper repeat (BS # ''bp'') (BS # ''ep'') (BS # ''rp''))
      else if re_match (suffixed (Lit ''Chorus'')) (name s) \<noteq> None then
        Inr (mk_wrapper repeat (BS # ''bc'') (BS # ''ec'') (BS # ''rc''))
      else if re_match (suffixed (Alt (Lit ''Break'') (Lit ''Instrumental''))) (name s) \<noteq> None then
        Inr (mk_wrapper repeat (BS # ''bin'') (BS # ''ein'') (BS # ''rin''))
      else if re_match (suffixed (Lit ''Bridge'')) (name s) \<noteq> None then
        Inr (mk_wrapper repeat (BS # ''bb'') (BS # ''eb'') (BS # ''rb''))
      else if re_match (Lit ''Outro'') (name s) \<noteq> None then
        Inr (mk_wrapper repeat (BS # ''bo'') (BS # ''eo'') (BS # ''ro''))
      else if re_match (suffixed (Lit ''Tag'')) (name s) \<noteq> None then
        Inr (mk_wrapper repeat (BS # ''bt'') (BS # ''et'') (BS # ''rt''))
      else Inl ValueError)"

text \<open>\<^verbatim>\<open>Section.get_index\<close>, pattern \<^verbatim>\<open>^([a-zA-Z]+) (\d)$\<close>: the second group is the last
  character of the text matched.\<close>

definition letter :: rexp where
  "letter = Cls ''abcdefghijklmnopqrstuvwxyzABCDEFGHIJKLMNOPQRSTUVWXYZ''"

definition get_index :: "Section \<Rightarrow> int" where
  "get_index s =
     (case re_match (Seq (Plus letter) (Seq (Sym (CHR '' '')) digit)) (name s) of
        Some matched \<Rightarrow> int_of_digit (last matched)
      | None \<Rightarrow> 1)"

text \<open>\<^verbatim>\<open>Section.has_lyrics\<close>\<close>

fun any_has_lyrics :: "line list \<Rightarrow> bool" where
  "any_has_lyrics [] = False"
| "any_has_lyrics (l # ls) = (if has_lyrics l then True else any_has_lyrics ls)"

definition section_has_lyrics :: "Section \<Rightarrow> bool" where
  "section_has_lyrics s = any_has_lyrics (lines s)"

text \<open>\<^verbatim>\<open>Section.generate_chordsheet\<close>. The two branches marked unreachable stand for a
  wrapper of the other shape than the flag \<open>repeated_section\<close> asks for, which
  \<open>get_wrapper\<close> never returns.\<close>

definition section_generate_chordsheet :: "Section \<Rightarrow> Notes \<Rightarrow> int \<Rightarrow> bool \<Rightarrow> exn + string" where
  "section_generate_chordsheet s n frequency repeated_section =
     (if \<not> repeated_section then
        (case get_wrapper s repeated_section of
           Inl e \<Rightarrow> Inl e
         | Inr (Repeat m) \<Rightarrow> Inl ValueError  \<comment> \<open>unreachable\<close>
         | Inr (BeginEnd b e) \<Rightarrow>
             (let begin_marker = (if frequency > 1 then b @ ''['' @ str_int frequency @ '']'' else b)
              in case try_map (generate_chordsheet n) (lines s) of
                   Inl x \<Rightarrow> Inl x
                 | Inr ls \<Rightarrow> Inr (begin_marker @ [NL] @ py_join [NL, NL] ls @ [NL] @ e)))
      else
        (case get_wrapper s repeated_section of
           Inl e \<Rightarrow> Inl e
         | Inr (BeginEnd b e) \<Rightarrow> Inl ValueError  \<comment> \<open>unreachable\<close>
         | Inr (Repeat macro) \<Rightarrow>
             if frequency > 1 then
               Inr (macro @ ''['' @ str_int frequency @ '']{'' @ str_int (get_index s) @ ''}'')
             else Inr (macro @ ''{'' @ str_int (get_index s) @ ''}'')))"

text \<open>\<^verbatim>\<open>create_slide\<close>, the local function of \<^verbatim>\<open>Section.generate_slides\<close>.\<close>

definition create_slide :: "bool \<Rightarrow> line list \<Rightarrow> string" where
  "create_slide is_first_slide ls =
     (if length ls > 0 then
        BS # ''begin{frame}'' @ [NL] @
        BS # ''header'' @ [NL] @
        BS # ''begin{center}'' @ [NL] @
        py_join [NL, NL] (map get_lyrics ls) @
        NL # BS # ''end{center}'' @ [NL] @
        (if is_first_slide then BS # ''cite'' @ [NL] else []) @
        BS # ''end{frame}''
      else [])"

text \<open>The \<^verbatim>\<open>for line in self.lines\<close> loop of \<^verbatim>\<open>Section.generate_slides\<close> and the call
  of \<^verbatim>\<open>create_slide\<close> after it.\<close>

fun slides_loop :: "bool \<Rightarrow> line list \<Rightarrow> string \<Rightarrow> line list \<Rightarrow> string" where
  "slides_loop is_first_slide [] acc lines_per_slide = acc @ create_slide is_first_slide lines_per_slide"
| "slides_loop is_first_slide (l # ls) acc lines_per_slide =
     (if \<not> is_break l then slides_loop is_first_slide ls acc (lines_per_slide @ [l])
      else slides_loop is_first_slide ls (acc @ create_slide is_first_slide lines_per_slide) [])"

definition section_generate_slides :: "Section \<Rightarrow> bool \<Rightarrow> exn + string" where
  "section_generate_slides s is_first_slide =
     (if \<not> section_has_lyrics s then Inl RuntimeError
      else Inr (slides_loop is_first_slide (lines s) [] []))"

section \<open>Song\<close>

record Song =
  sections :: "string \<rightharpoonup> Section"
  order :: "(string \<times> int) list"
  key :: string

text \<open>The loop of \<^verbatim>\<open>Song.generate_chordsheet\<close> over the performance order.\<close>

fun chordsheet_loop ::
  "(string \<rightharpoonup> Section) \<Rightarrow> Notes \<Rightarrow> (string \<times> int) list \<Rightarrow> string set \<Rightarrow> string \<Rightarrow> exn + string"
where
  "chordsheet_loop secs n [] generated_sections acc = Inr acc"
| "chordsheet_loop secs n ((section_name, frequency) # rest) generated_sections acc =
     (case secs section_name of
        None \<Rightarrow> Inl KeyError
      | Some s \<Rightarrow>
          (case section_generate_chordsheet s n frequency (section_name \<in> generated_sections) of
             Inl e \<Rightarrow> Inl e
           | Inr t \<Rightarrow>
               chordsheet_loop secs n rest (insert section_name generated_sections)
                 (acc @ t @ [NL, NL])))"

definition song_generate_chordsheet :: "Song \<Rightarrow> string \<Rightarrow> exn + string" where
  "song_generate_chordsheet sg new_key =
     (case Notes_init (key sg) new_key of
        Inl e \<Rightarrow> Inl e
      | Inr n \<Rightarrow>
          (case chordsheet_loop (sections sg) n (order sg) {} (BS # ''bsong'' @ [NL, NL]) of
             Inl e \<Rightarrow> Inl e
           | Inr t \<Rightarrow> Inr (t @ BS # ''esong'' @ [NL, NL])))"

text \<open>The loop of \<^verbatim>\<open>Song.generate_slides\<close>. The section is looked up only when the first
  operand of \<^verbatim>\<open>and\<close> holds.\<close>

fun song_slides_loop ::
  "(string \<rightharpoonup> Section) \<Rightarrow> bool \<Rightarrow> (string \<times> int) list \<Rightarrow> string set \<Rightarrow> bool \<Rightarrow> string \<Rightarrow> exn + string"
where
  "song_slides_loop secs repeat [] generated_sections first_slide acc = Inr acc"
| "song_slides_loop secs repeat ((section_name, frequency) # rest) generated_sections first_slide acc =
     (if repeat \<or> section_name \<notin> generated_sections then
        (case secs section_name of
           None \<Rightarrow> Inl KeyError
         | Some s \<Rightarrow>
             if section_has_lyrics s then
               (case section_generate_slides s first_slide of
                  Inl e \<Rightarrow> Inl e
                | Inr t \<Rightarrow>
                    song_slides_loop secs repeat rest (insert section_name generated_sections) False
                      (acc @ t @ [NL, NL]))
             else song_slides_loop secs repeat rest (insert section_name generated_sections)
                    first_slide acc)
      else song_slides_loop secs repeat rest (insert section_name generated_sections) first_slide acc)"

definition song_generate_slides :: "Song \<Rightarrow> bool \<Rightarrow> exn + string" where
  "song_generate_slides sg repeat = song_slides_loop (sections sg) repeat (order sg) {} True []"

section \<open>Transposition\<close>

subsection \<open>The loop, seen from the part of the symbol still to be read\<close>

text \<open>Two results in sequence, appended; the first raise wins.\<close>

definition then_append :: "exn + string \<Rightarrow> exn + string \<Rightarrow> exn + string" where
  "then_append a b =
     (case a of
        Inl e \<Rightarrow> Inl e
      | Inr x \<Rightarrow> (case b of Inl e \<Rightarrow> Inl e | Inr y \<Rightarrow> Inr (x @ y)))"

text \<open>The loop of \<open>transpose\<close> depends only on the characters from the index on; it is
  the following recursion on that suffix (\<open>transpose_loop_chars\<close> below).\<close>

fun transpose_chars :: "Notes \<Rightarrow> string \<Rightarrow> exn + string" where
  "transpose_chars n [] = Inr []"
| "transpose_chars n [x] =
     (if note_letter x then transpose_note n [x] else Inr [x])"
| "transpose_chars n (x # y # zs) =
     (if note_letter x then
        (if accidental y then
           then_append (transpose_note n [x, y]) (transpose_chars n zs)
         else then_append (transpose_note n [x]) (transpose_chars n (y # zs)))
      else then_append (Inr [x]) (transpose_chars n (y # zs)))"

text \<open>Whether every note token that the scan of a symbol meets is an entry of the table
  \<open>T\<close>: the scan is the one of \<open>transpose_chars\<close>.\<close>

fun notes_known :: "string list \<Rightarrow> string \<Rightarrow> bool" where
  "notes_known T [] = True"
| "notes_known T [x] = (if note_letter x then [x] \<in> set T else True)"
| "notes_known T (x # y # zs) =
     (if note_letter x then
        (if accidental y then [x, y] \<in> set T \<and> notes_known T zs
         else [x] \<in> set T \<and> notes_known T (y # zs))
      else notes_known T (y # zs))"

lemma then_append_simps [simp]:
  "then_append (Inl e) b = Inl e"
  "then_append (Inr x) (Inl e) = Inl e"
  "then_append (Inr x) (Inr y) = Inr (x @ y)"
  by (simp_all add: then_append_def)

lemma then_append_assoc:
  "then_append (then_append a b) c = then_append a (then_append b c)"
  by (cases a; cases b; cases c) simp_all

lemma then_append_Nil [simp]: "then_append a (Inr []) = a" "then_append (Inr []) a = a"
  by (cases a; simp)+

lemma transpose_chars_Cons_plain:
  "\<not> note_letter x \<Longrightarrow> transpose_chars n (x # zs) = then_append (Inr [x]) (transpose_chars n zs)"
  by (cases zs) simp_all

lemma transpose_chars_Cons_note:
  "note_letter x \<Longrightarrow> zs = [] \<or> \<not> accidental (hd zs) \<Longrightarrow>
   transpose_chars n (x # zs) = then_append (transpose_note n [x]) (transpose_chars n zs)"
  by (cases zs) auto

lemma transpose_chars_Cons_acc:
  "note_letter x \<Longrightarrow> accidental y \<Longrightarrow>
   transpose_chars n (x # y # zs) = then_append (transpose_note n [x, y]) (transpose_chars n zs)"
  by simp

lemma transpose_loop_chars:
  "transpose_loop n c i acc = then_append (Inr acc) (transpose_chars n (drop i c))"
proof (induction n c i acc rule: transpose_loop.induct)
  case (1 n c i new_chord)
  show ?case
  proof (cases "i < length c")
    case False
    then show ?thesis by (simp add: transpose_loop.simps [of n c i])
  next
    case True
    then have d: "drop i c = c ! i # drop (Suc i) c"
      by (simp add: Cons_nth_drop_Suc)
    show ?thesis
    proof (cases "note_letter (c ! i)")
      case notletter: False
      with True 1 have "transpose_loop n c i new_chord
          = then_append (Inr (new_chord @ [c ! i])) (transpose_chars n (drop (Suc i) c))"
        by (simp add: transpose_loop.simps [of n c i])
      also have "\<dots> = then_append (Inr new_chord) (transpose_chars n (drop i c))"
        unfolding d transpose_chars_Cons_plain [OF notletter]
        by (cases "transpose_chars n (drop (Suc i) c)") simp_all
      finally show ?thesis .
    next
      case letter: True
      show ?thesis
      proof (cases "i + 1 < length c \<and> accidental (c ! (i + 1))")
        case acc: True
        then have d2: "drop (Suc i) c = c ! (Suc i) # drop (Suc (Suc i)) c"
          by (simp add: Cons_nth_drop_Suc)
        have t2: "take 2 (drop i c) = [c ! i, c ! Suc i]"
          by (simp add: d d2 numeral_2_eq_2)
        have r: "transpose_chars n (drop i c) =
            then_append (transpose_note n [c ! i, c ! Suc i]) (transpose_chars n (drop (Suc (Suc i)) c))"
          unfolding d d2 using letter acc by (simp add: transpose_chars_Cons_acc)
        show ?thesis
        proof (cases "transpose_note n [c ! i, c ! Suc i]")
          case (Inl e)
          with True letter acc show ?thesis
            by (simp add: transpose_loop.simps [of n c i] t2 r)
        next
          case (Inr t)
          with True letter acc 1(1) [of t] have "transpose_loop n c i new_chord
             = then_append (Inr (new_chord @ t)) (transpose_chars n (drop (Suc (Suc i)) c))"
            by (simp add: transpose_loop.simps [of n c i] t2)
          also have "\<dots> = then_append (Inr new_chord) (transpose_chars n (drop i c))"
            unfolding r Inr by (cases "transpose_chars n (drop (Suc (Suc i)) c)") simp_all
          finally show ?thesis .
        qed
      next
        case noacc: False
        have "drop (Suc i) c = [] \<or> \<not> accidental (hd (drop (Suc i) c))"
          using noacc by (cases "Suc i < length c") (simp_all add: hd_drop_conv_nth)
        then have r: "transpose_chars n (drop i c) =
            then_append (transpose_note n [c ! i]) (transpose_chars n (drop (Suc i) c))"
          unfolding d using letter by (rule transpose_chars_Cons_note [rotated])
        show ?thesis
        proof (cases "transpose_note n [c ! i]")
          case (Inl e)
          with True letter noacc show ?thesis
            by (auto simp add: transpose_loop.simps [of n c i] r)
        next
          case (Inr t)
          with True letter noacc 1(2) [of t] have "transpose_loop n c i new_chord
             = then_append (Inr (new_chord @ t)) (transpose_chars n (drop (Suc i) c))"
            by (auto simp add: transpose_loop.simps [of n c i])
          also have "\<dots> = then_append (Inr new_chord) (transpose_chars n (drop i c))"
            unfolding r Inr by (cases "transpose_chars n (drop (Suc i) c)") simp_all
          finally show ?thesis .
        qed
      qed
    qed
  qed
qed

lemma transpose_chars_eq: "transpose n ch = transpose_chars n (symbol ch)"
  by (simp add: transpose_def transpose_loop_chars)

lemma transpose_chars_append:
  "\<not> (xs \<noteq> [] \<and> note_letter (last xs) \<and> ys \<noteq> [] \<and> accidental (hd ys)) \<Longrightarrow>
   transpose_chars n (xs @ ys) = then_append (transpose_chars n xs) (transpose_chars n ys)"
proof (induction n xs rule: transpose_chars.induct)
  case (1 n)
  then show ?case by simp
next
  case (2 n x)
  then show ?case
    by (cases "note_letter x") (auto simp: transpose_chars_Cons_plain transpose_chars_Cons_note)
next
  case (3 n x y zs)
  show ?case
  proof (cases "note_letter x \<and> accidental y")
    case True
    have "transpose_chars n (zs @ ys) = then_append (transpose_chars n zs) (transpose_chars n ys)"
    proof (cases "zs = []")
      case True
      then show ?thesis by simp
    next
      case False
      with "3.prems" have "\<not> (zs \<noteq> [] \<and> note_letter (last zs) \<and> ys \<noteq> [] \<and> accidental (hd ys))"
        by simp
      with True "3.IH"(1) show ?thesis by blast
    qed
    with True show ?thesis by (simp add: then_append_assoc)
  next
    case False
    from "3.prems" have p: "\<not> (y # zs \<noteq> [] \<and> note_letter (last (y # zs)) \<and> ys \<noteq> [] \<and> accidental (hd ys))"
      by simp
    show ?thesis
    proof (cases "note_letter x")
      case True
      with False have na: "\<not> accidental y" by simp
      from "3.IH"(2) [OF True na p] True na show ?thesis
        by (simp add: then_append_assoc)
    next
      case nl: False
      from "3.IH"(3) [OF nl p] nl show ?thesis
        by (simp add: then_append_assoc)
    qed
  qed
qed

lemma note_letter_not_accidental: "note_letter x \<Longrightarrow> \<not> accidental x"
  by (auto simp: note_letter_def accidental_def)

lemma index_from_absent: "x \<notin> set xs \<Longrightarrow> index_from xs x k = Inl ValueError"
  by (induction xs arbitrary: k) auto

lemma index_from_present:
  "x \<in> set xs \<Longrightarrow> \<exists>i. index_from xs x k = Inr (k + i) \<and> i < length xs \<and> xs ! i = x"
proof (induction xs arbitrary: k)
  case Nil
  then show ?case by simp
next
  case (Cons y ys)
  show ?case
  proof (cases "y = x")
    case True
    then have "index_from (y # ys) x k = Inr (k + 0) \<and> 0 < length (y # ys) \<and> (y # ys) ! 0 = x"
      by simp
    then show ?thesis by blast
  next
    case False
    with Cons.prems have "x \<in> set ys" by simp
    from Cons.IH [OF this, of "Suc k"] obtain i where
      "index_from ys x (Suc k) = Inr (Suc k + i)" "i < length ys" "ys ! i = x" by blast
    with False have "index_from (y # ys) x k = Inr (k + Suc i) \<and> Suc i < length (y # ys) \<and> (y # ys) ! Suc i = x"
      by simp
    then show ?thesis by blast
  qed
qed

lemma py_index_present:
  "x \<in> set xs \<Longrightarrow> \<exists>i. py_index xs x = Inr i \<and> i < length xs \<and> xs ! i = x"
  using index_from_present [of x xs 0] by (simp add: py_index_def)

lemma py_index_absent: "x \<notin> set xs \<Longrightarrow> py_index xs x = Inl ValueError"
  by (simp add: py_index_def index_from_absent)

lemma transpose_note_same_table:
  assumes "input_notes n = T" "output_notes n = T" "semitones_up n = 0"
  shows "transpose_note n note = (if note \<in> set T then Inr note else Inl ValueError)"
proof (cases "note \<in> set T")
  case False
  with assms show ?thesis by (simp add: transpose_note_def py_index_absent)
next
  case True
  from py_index_present [OF this] obtain i where
    i: "py_index T note = Inr i" "i < length T" "T ! i = note" by blast
  then have "nat (int i mod int (length T)) = i" by simp
  moreover from True have "T \<noteq> []" by auto
  ultimately show ?thesis using assms i True by (simp add: transpose_note_def)
qed

lemma transpose_chars_same_table:
  "input_notes n = T \<Longrightarrow> output_notes n = T \<Longrightarrow> semitones_up n = 0 \<Longrightarrow>
   transpose_chars n s = (if notes_known T s then Inr s else Inl ValueError)"
proof (induction T s rule: notes_known.induct)
  case (1 T)
  show ?case by simp
next
  case (2 T x)
  then show ?case by (simp add: transpose_note_same_table [of n T])
next
  case (3 T x y zs)
  then show ?case by (simp add: transpose_note_same_table [of n T])
qed

lemma get_semitones_up_same:
  "k \<in> set T \<Longrightarrow> get_semitones_up T T k k = Inr 0"
proof -
  assume k: "k \<in> set T"
  from py_index_present [OF k] obtain i where "py_index T k = Inr i" "i < length T" by blast
  then show ?thesis by (auto simp: get_semitones_up_def)
qed

lemma sharp_key_in_table: "is_sharp_key k \<Longrightarrow> k \<in> set notes_sharp"
  by (auto simp: is_sharp_key_def sharp_keys_def notes_sharp_def)

lemma flat_key_in_table: "is_flat_key k \<Longrightarrow> k \<in> set notes_flat"
  by (auto simp: is_flat_key_def flat_keys_def notes_flat_def)

lemma Notes_init_same_key:
  assumes "is_sharp_key k \<or> is_flat_key k"
  shows "Notes_init k k =
     Inr \<lparr>input_notes = (if is_sharp_key k then notes_sharp else notes_flat),
          output_notes = (if is_sharp_key k then notes_sharp else notes_flat),
          semitones_up = 0\<rparr>"
  using assms
  by (auto simp: Notes_init_def get_semitones_up_same sharp_key_in_table flat_key_in_table)

subsection \<open>The spelling of a transposed note\<close>

text \<open>
  C2. With input key C the input table is the sharp one, with output key F the output table
  is the flat one, and the offset is 5. The chord F sharp is entry 6 of the sharp table; entry
  \<open>(6 + 5) mod 12 = 11\<close> of the flat table is C flat, so that is what \<open>transpose\<close> returns,
  not A sharp.
\<close>

theorem transpose_F_sharp_C_to_F:
  "Notes_init ''C'' ''F'' =
     Inr \<lparr>input_notes = notes_sharp, output_notes = notes_flat, semitones_up = 5\<rparr>
   \<and> transpose \<lparr>input_notes = notes_sharp, output_notes = notes_flat, semitones_up = 5\<rparr>
       (Chord ''F#'') = Inr ''Cb''
   \<and> transpose_between ''F#'' ''C'' ''F'' = Inr ''Cb''"
  by code_simp

theorem transpose_F_sharp_C_to_F_not_A_sharp:
  "transpose_between ''F#'' ''C'' ''F'' \<noteq> Inr ''A#''"
  by code_simp

subsection \<open>Which characters are transposed\<close>

text \<open>
  C1 (as amended). \<open>transpose\<close> does not stop after the leading root token: wherever the scan
  meets a letter A to G it transposes it, together with a directly following sharp or flat
  sign, and it copies only the characters that belong to no such token. At any position
  \<open>x\<close> of a symbol \<open>pre @ x # post\<close>: a note letter is transposed as a token of its own
  (with \<open>hd post\<close> when that is an accidental) between the results for \<open>pre\<close> and for the
  rest; an accidental right after a note letter belongs to that letter's token; any other
  character is copied between the results for \<open>pre\<close> and \<open>post\<close>.
\<close>

theorem transpose_every_note_token:
  "transpose n (Chord (pre @ x # post)) =
     (if note_letter x then
        then_append (transpose n (Chord pre))
          (if post \<noteq> [] \<and> accidental (hd post)
           then then_append (transpose_note n [x, hd post]) (transpose n (Chord (tl post)))
           else then_append (transpose_note n [x]) (transpose n (Chord post)))
      else if accidental x \<and> pre \<noteq> [] \<and> note_letter (last pre) then
        then_append (transpose n (Chord (butlast pre)))
          (then_append (transpose_note n [last pre, x]) (transpose n (Chord post)))
      else then_append (transpose n (Chord pre))
             (then_append (Inr [x]) (transpose n (Chord post))))"
proof (cases "note_letter x")
  case True
  then have "\<not> accidental x" by (rule note_letter_not_accidental)
  then have "transpose_chars n (pre @ x # post) =
      then_append (transpose_chars n pre) (transpose_chars n (x # post))"
    by (intro transpose_chars_append) simp
  moreover have "transpose_chars n (x # post) =
      (if post \<noteq> [] \<and> accidental (hd post)
       then then_append (transpose_note n [x, hd post]) (transpose_chars n (tl post))
       else then_append (transpose_note n [x]) (transpose_chars n post))"
    using True by (cases post) (auto simp: transpose_chars_Cons_note)
  ultimately show ?thesis using True by (simp add: transpose_chars_eq)
next
  case nl: False
  show ?thesis
  proof (cases "accidental x \<and> pre \<noteq> [] \<and> note_letter (last pre)")
    case True
    then have pre: "pre = butlast pre @ [last pre]" by simp
    have "\<not> accidental (last pre)" using True by (simp add: note_letter_not_accidental)
    then have "transpose_chars n (butlast pre @ (last pre # x # post)) =
        then_append (transpose_chars n (butlast pre)) (transpose_chars n (last pre # x # post))"
      by (intro transpose_chars_append) simp
    moreover have "butlast pre @ (last pre # x # post) = pre @ x # post"
      using True by simp
    ultimately show ?thesis using True nl by (simp add: transpose_chars_eq)
  next
    case False
    then have "transpose_chars n (pre @ x # post) =
        then_append (transpose_chars n pre) (transpose_chars n (x # post))"
      by (intro transpose_chars_append) auto
    with False nl show ?thesis
      by (auto simp add: transpose_chars_eq transpose_chars_Cons_plain)
  qed
qed

text \<open>The bass note of D/F sharp is transposed from C to D like the root: the result is
  E/G sharp, and not the E/F sharp that transposing the root alone would give.\<close>

theorem transpose_bass_note_transposed:
  "Notes_init ''C'' ''D'' =
     Inr \<lparr>input_notes = notes_sharp, output_notes = notes_sharp, semitones_up = 2\<rparr>
   \<and> transpose \<lparr>input_notes = notes_sharp, output_notes = notes_sharp, semitones_up = 2\<rparr>
       (Chord ''D/F#'') = Inr ''E/G#''
   \<and> transpose \<lparr>input_notes = notes_sharp, output_notes = notes_sharp, semitones_up = 2\<rparr>
       (Chord ''D/F#'') \<noteq> Inr ''E/F#''"
  by code_simp

subsection \<open>Transposing from a key to itself\<close>

text \<open>
  C3 (as amended). For a supported key \<open>k\<close> the constructor succeeds with the same table on
  both sides and offset 0. Transposing a symbol from \<open>k\<close> to \<open>k\<close> returns the symbol unchanged
  when every note token of the symbol is an entry of the table of \<open>k\<close>, and raises
  \<^verbatim>\<open>ValueError\<close> otherwise.
\<close>

theorem transpose_same_key:
  assumes "is_sharp_key k \<or> is_flat_key k"
  shows "transpose_between s k k =
     (if notes_known (if is_sharp_key k then notes_sharp else notes_flat) s
      then Inr s else Inl ValueError)"
  by (simp only: transpose_between_def Notes_init_same_key [OF assms] sum.case
        transpose_chars_eq chord.sel
        transpose_chars_same_table [where T = "if is_sharp_key k then notes_sharp else notes_flat"]
        Notes.simps)

theorem transpose_same_key_witness:
  "(is_sharp_key ''G'' \<or> is_flat_key ''G'')
   \<and> transpose_between ''D/F#'' ''G'' ''G'' = Inr ''D/F#''
   \<and> transpose_between ''Bb'' ''F'' ''F'' = Inr ''Bb''
   \<and> transpose_between ''B7'' ''F'' ''F'' = Inl ValueError"
  using transpose_same_key [of "''G''" "''D/F#''"] transpose_same_key [of "''F''" "''Bb''"]
    transpose_same_key [of "''F''" "''B7''"]
  by (simp add: is_sharp_key_def is_flat_key_def sharp_keys_def flat_keys_def notes_sharp_def
        notes_flat_def note_letter_def accidental_def)

text \<open>B flat is not an entry of the sharp table: in the key of C the chord B flat is not
  returned unchanged, the lookup raises.\<close>

theorem transpose_same_key_raises:
  "transpose_between ''Bb'' ''C'' ''C'' = Inl ValueError
   \<and> transpose_between ''Bb'' ''C'' ''C'' \<noteq> Inr ''Bb''"
  by code_simp

section \<open>Parsing a lyric line\<close>

subsection \<open>When the parser raises\<close>

text \<open>An opening bracket at or after index \<open>i\<close> with no closing bracket after it.\<close>

definition open_from :: "string \<Rightarrow> nat \<Rightarrow> bool" where
  "open_from ln i =
     (\<exists>j. i \<le> j \<and> j < length ln \<and> ln ! j = CHR ''['' \<and>
          (\<forall>k. j < k \<and> k < length ln \<longrightarrow> ln ! k \<noteq> CHR '']''))"

lemma find_close_Inr:
  "find_close ln i = Inr e \<Longrightarrow> i \<le> e \<and> e < length ln \<and> ln ! e = CHR '']''"
proof (induction ln i rule: find_close.induct)
  case (1 ln i)
  show ?case
  proof (cases "i < length ln \<and> ln ! i \<noteq> CHR '']'' \<and> i + 1 < length ln")
    case True
    with "1.prems" have "find_close ln (i + 1) = Inr e"
      by (simp add: find_close.simps [of ln i])
    with True "1.IH" have "i + 1 \<le> e \<and> e < length ln \<and> ln ! e = CHR '']''" by simp
    then show ?thesis by simp
  next
    case False
    with "1.prems" show ?thesis
      by (auto simp: find_close.simps [of ln i] split: if_splits)
  qed
qed

lemma find_close_Inl:
  "i < length ln \<Longrightarrow> find_close ln i = Inl x \<Longrightarrow>
   x = ValueError \<and> (\<forall>k. i \<le> k \<and> k < length ln \<longrightarrow> ln ! k \<noteq> CHR '']'')"
proof (induction ln i rule: find_close.induct)
  case (1 ln i)
  show ?case
  proof (cases "ln ! i \<noteq> CHR '']'' \<and> i + 1 < length ln")
    case True
    with "1.prems" have "find_close ln (i + 1) = Inl x"
      by (simp add: find_close.simps [of ln i])
    with True "1.IH" "1.prems" have
      ih: "x = ValueError \<and> (\<forall>k. i + 1 \<le> k \<and> k < length ln \<longrightarrow> ln ! k \<noteq> CHR '']'')" by simp
    have "ln ! k \<noteq> CHR '']''" if "i \<le> k" "k < length ln" for k
      using that ih True by (cases "k = i") auto
    with ih show ?thesis by blast
  next
    case False
    with "1.prems" have "ln ! i \<noteq> CHR '']''" "x = ValueError" "i + 1 \<ge> length ln"
      by (auto simp: find_close.simps [of ln i] split: if_splits)
    moreover have "k = i" if "i \<le> k" "k < length ln" for k
      using that \<open>i + 1 \<ge> length ln\<close> by simp
    ultimately show ?thesis by blast
  qed
qed

lemma open_from_here:
  "i < length ln \<Longrightarrow> ln ! i = CHR ''['' \<Longrightarrow>
   \<forall>k. i \<le> k \<and> k < length ln \<longrightarrow> ln ! k \<noteq> CHR '']'' \<Longrightarrow> open_from ln i"
  unfolding open_from_def by (rule exI [of _ i]) simp

lemma open_from_skip:
  assumes "i \<le> m" "\<forall>j. i \<le> j \<and> j < m \<longrightarrow>
             (ln ! j \<noteq> CHR ''['' \<or> (\<exists>k. j < k \<and> k < length ln \<and> ln ! k = CHR '']''))"
  shows "open_from ln i = open_from ln m"
proof
  assume "open_from ln i"
  then obtain j where j: "i \<le> j" "j < length ln" "ln ! j = CHR ''[''"
    "\<forall>k. j < k \<and> k < length ln \<longrightarrow> ln ! k \<noteq> CHR '']''"
    unfolding open_from_def by blast
  have "m \<le> j"
  proof (rule ccontr)
    assume "\<not> m \<le> j"
    with j(1) assms(2) have "ln ! j \<noteq> CHR ''['' \<or> (\<exists>k. j < k \<and> k < length ln \<and> ln ! k = CHR '']'')"
      by simp
    with j show False by blast
  qed
  with j show "open_from ln m" unfolding open_from_def by blast
next
  assume "open_from ln m"
  with assms(1) show "open_from ln i" unfolding open_from_def by (meson le_trans)
qed

lemma parse_loop_result:
  "(open_from ln i \<longrightarrow> parse_loop ln i toks = Inl ValueError) \<and>
   (\<not> open_from ln i \<longrightarrow> (\<exists>cs. parse_loop ln i toks = Inr (Lyric cs)))"
proof (induction ln i toks rule: parse_loop.induct)
  case (1 ln i toks)
  show ?case
  proof (cases "i < length ln")
    case False
    then have "\<not> open_from ln i" by (auto simp: open_from_def)
    with False show ?thesis by (simp add: parse_loop.simps [of ln i])
  next
    case True
    show ?thesis
    proof (cases "ln ! i = CHR ''[''")
      case False
      have "open_from ln i = open_from ln (i + 1)"
        by (rule open_from_skip) (use False in \<open>auto simp: le_less_Suc_eq\<close>)
      moreover have "parse_loop ln i toks = parse_loop ln (i + 1) (toks @ [Character [ln ! i] None])"
        using True False by (simp add: parse_loop.simps [of ln i])
      ultimately show ?thesis using "1.IH"(3) True False by simp
    next
      case br: True
      show ?thesis
      proof (cases "find_close ln i")
        case (Inl x)
        from find_close_Inl [OF True Inl] have x: "x = ValueError"
          and no: "\<forall>k. i \<le> k \<and> k < length ln \<longrightarrow> ln ! k \<noteq> CHR '']''" by blast+
        have "open_from ln i" by (rule open_from_here [OF True br no])
        moreover have "parse_loop ln i toks = Inl ValueError"
          using True br Inl x by (simp add: parse_loop.simps [of ln i])
        ultimately show ?thesis by simp
      next
        case (Inr e)
        from find_close_Inr [OF Inr] have e: "i \<le> e" "e < length ln" "ln ! e = CHR '']''" by blast+
        have skip_e: "\<forall>j. i \<le> j \<and> j < e + 1 \<longrightarrow>
             (ln ! j \<noteq> CHR ''['' \<or> (\<exists>k. j < k \<and> k < length ln \<and> ln ! k = CHR '']''))"
        proof (intro allI impI)
          fix j assume j: "i \<le> j \<and> j < e + 1"
          show "ln ! j \<noteq> CHR ''['' \<or> (\<exists>k. j < k \<and> k < length ln \<and> ln ! k = CHR '']'')"
          proof (cases "j = e")
            case True
            with e show ?thesis by simp
          next
            case False
            with j have "j < e" by simp
            with e show ?thesis by blast
          qed
        qed
        show ?thesis
        proof (cases "e + 1 \<ge> length ln \<or> ln ! (e + 1) = CHR ''[''")
          case stay: True
          have "open_from ln i = open_from ln (e + 1)"
            by (rule open_from_skip) (use e skip_e in auto)
          moreover have "parse_loop ln i toks = parse_loop ln (e + 1)
              (toks @ [Character [] (Some (Chord (slice ln (i + 1) e)))])"
            using True br Inr stay by (simp add: parse_loop.simps [of ln i] Let_def)
          ultimately show ?thesis using "1.IH"(1) [OF True br refl _ Inr stay] True by simp
        next
          case go: False
          have "\<forall>j. i \<le> j \<and> j < e + 2 \<longrightarrow>
             (ln ! j \<noteq> CHR ''['' \<or> (\<exists>k. j < k \<and> k < length ln \<and> ln ! k = CHR '']''))"
          proof (intro allI impI)
            fix j assume j: "i \<le> j \<and> j < e + 2"
            show "ln ! j \<noteq> CHR ''['' \<or> (\<exists>k. j < k \<and> k < length ln \<and> ln ! k = CHR '']'')"
            proof (cases "j = e + 1")
              case True
              with go show ?thesis by simp
            next
              case False
              with j have "i \<le> j \<and> j < e + 1" by simp
              with skip_e show ?thesis by blast
            qed
          qed
          then have "open_from ln i = open_from ln (e + 2)"
            by (intro open_from_skip) (use e in auto)
          moreover have "parse_loop ln i toks = parse_loop ln (e + 2)
              (toks @ [Character [ln ! (e + 1)] (Some (Chord (slice ln (i + 1) e)))])"
            using True br Inr go by (simp add: parse_loop.simps [of ln i] Let_def)
          ultimately show ?thesis using "1.IH"(2) [OF True br refl _ Inr go] True by simp
        qed
      qed
    qed
  qed
qed



lemma open_from_0_iff:
  "open_from ln 0 = (\<exists>pre post. ln = pre @ CHR ''['' # post \<and> CHR '']'' \<notin> set post)"
proof
  assume "open_from ln 0"
  then obtain j where j: "j < length ln" "ln ! j = CHR ''[''"
    "\<forall>k. j < k \<and> k < length ln \<longrightarrow> ln ! k \<noteq> CHR '']''"
    unfolding open_from_def by blast
  from id_take_nth_drop [OF j(1)] j(2) have "ln = take j ln @ CHR ''['' # drop (Suc j) ln"
    by simp
  moreover have "CHR '']'' \<notin> set (drop (Suc j) ln)"
  proof
    assume "CHR '']'' \<in> set (drop (Suc j) ln)"
    then obtain m where "m < length (drop (Suc j) ln)" "drop (Suc j) ln ! m = CHR '']''"
      by (auto simp: in_set_conv_nth)
    then have "j < Suc j + m \<and> Suc j + m < length ln" "ln ! (Suc j + m) = CHR '']''"
      by auto
    with j(3) show False by blast
  qed
  ultimately show "\<exists>pre post. ln = pre @ CHR ''['' # post \<and> CHR '']'' \<notin> set post"
    by blast
next
  assume "\<exists>pre post. ln = pre @ CHR ''['' # post \<and> CHR '']'' \<notin> set post"
  then obtain pre post where ln: "ln = pre @ CHR ''['' # post" and no: "CHR '']'' \<notin> set post"
    by blast
  have "ln ! k \<noteq> CHR '']''" if "length pre < k" "k < length ln" for k
  proof -
    from that ln have "ln ! k = post ! (k - Suc (length pre))" "k - Suc (length pre) < length post"
      by (auto simp: nth_append nth_Cons')
    with no show ?thesis by (metis nth_mem)
  qed
  moreover have "length pre < length ln" "ln ! length pre = CHR ''[''"
    using ln by simp_all
  ultimately show "open_from ln 0"
    unfolding open_from_def by (intro exI [of _ "length pre"]) simp
qed

lemma rstrip_decomp: "\<exists>ws. ln = rstrip ln @ ws \<and> (\<forall>c\<in>set ws. is_space c)"
proof -
  have "rev (takeWhile is_space (rev ln) @ dropWhile is_space (rev ln)) = ln" by simp
  then have "ln = rev (dropWhile is_space (rev ln)) @ rev (takeWhile is_space (rev ln))"
    by (simp only: rev_append)
  moreover have "\<forall>c\<in>set (rev (takeWhile is_space (rev ln))). is_space c"
    by (auto dest: set_takeWhileD)
  ultimately show ?thesis unfolding rstrip_def by blast
qed

lemma rstrip_append_space: "\<forall>c\<in>set ws. is_space c \<Longrightarrow> rstrip (ln @ ws) = rstrip ln"
  using dropWhile_append2 [of "rev ws" is_space "rev ln"] by (simp add: rstrip_def)

lemma unmatched_snoc:
  assumes "c \<noteq> CHR ''[''" "c \<noteq> CHR '']''"
  shows "(\<exists>pre post. xs @ [c] = pre @ CHR ''['' # post \<and> CHR '']'' \<notin> set post) =
         (\<exists>pre post. xs = pre @ CHR ''['' # post \<and> CHR '']'' \<notin> set post)"
    (is "?L = ?R")
proof
  assume ?L
  then obtain pre post where eq: "xs @ [c] = pre @ CHR ''['' # post" and no: "CHR '']'' \<notin> set post"
    by blast
  have "post \<noteq> []"
  proof
    assume "post = []"
    with eq have "last (xs @ [c]) = last (pre @ [CHR ''[''])" by simp
    with assms(1) show False by simp
  qed
  from eq have "butlast (xs @ [c]) = butlast (pre @ CHR ''['' # post)" by simp
  with \<open>post \<noteq> []\<close> have "xs = pre @ CHR ''['' # butlast post"
    by (simp add: butlast_append)
  moreover from no have "CHR '']'' \<notin> set (butlast post)"
    by (meson in_set_butlastD)
  ultimately show ?R by blast
next
  assume ?R
  then obtain pre post where "xs = pre @ CHR ''['' # post" "CHR '']'' \<notin> set post" by blast
  with assms(2) have "xs @ [c] = pre @ CHR ''['' # (post @ [c]) \<and> CHR '']'' \<notin> set (post @ [c])"
    by simp
  then show ?L by blast
qed

lemma unmatched_append_space:
  "\<forall>c\<in>set ws. is_space c \<Longrightarrow>
   (\<exists>pre post. r @ ws = pre @ CHR ''['' # post \<and> CHR '']'' \<notin> set post) =
   (\<exists>pre post. r = pre @ CHR ''['' # post \<and> CHR '']'' \<notin> set post)"
proof (induction ws rule: rev_induct)
  case Nil
  show ?case by simp
next
  case (snoc c ws)
  then have "is_space c" by simp
  then have c: "c \<noteq> CHR ''[''" "c \<noteq> CHR '']''"
    by (auto simp: is_space_def)
  from snoc have ih: "(\<exists>pre post. r @ ws = pre @ CHR ''['' # post \<and> CHR '']'' \<notin> set post) =
      (\<exists>pre post. r = pre @ CHR ''['' # post \<and> CHR '']'' \<notin> set post)" by simp
  from unmatched_snoc [OF c, of "r @ ws"] ih show ?case by simp
qed

lemma unmatched_rstrip:
  "(\<exists>pre post. rstrip ln = pre @ CHR ''['' # post \<and> CHR '']'' \<notin> set post) =
   (\<exists>pre post. ln = pre @ CHR ''['' # post \<and> CHR '']'' \<notin> set post)"
proof -
  from rstrip_decomp [of ln] obtain ws where ws: "ln = rstrip ln @ ws" "\<forall>c\<in>set ws. is_space c"
    by blast
  from unmatched_append_space [OF ws(2), of "rstrip ln"] show ?thesis
    by (simp only: ws(1) [symmetric])
qed

text \<open>
  C9. \<open>Lyric_parse\<close> raises \<^verbatim>\<open>ValueError\<close> (the spec's UnterminatedChord) exactly when the
  line has an opening bracket with no closing bracket anywhere after it; on every other line it
  returns a \<open>Lyric\<close>, so no other exception arises and no \<open>Lyric\<close> is produced when it raises.
\<close>

theorem Lyric_parse_unterminated:
  "(Lyric_parse ln = Inl ValueError) =
     (\<exists>pre post. ln = pre @ CHR ''['' # post \<and> CHR '']'' \<notin> set post)
   \<and> (\<exists>cs. Lyric_parse ln = Inr (Lyric cs)) =
     (\<not> (\<exists>pre post. ln = pre @ CHR ''['' # post \<and> CHR '']'' \<notin> set post))"
proof (cases "open_from (rstrip ln) 0")
  case True
  with parse_loop_result [of "rstrip ln" 0 "[]"] have "Lyric_parse ln = Inl ValueError"
    by (simp add: Lyric_parse_def)
  moreover from True have "\<exists>pre post. ln = pre @ CHR ''['' # post \<and> CHR '']'' \<notin> set post"
    by (simp add: open_from_0_iff unmatched_rstrip)
  ultimately show ?thesis by simp
next
  case False
  with parse_loop_result [of "rstrip ln" 0 "[]"] obtain cs where "Lyric_parse ln = Inr (Lyric cs)"
    by (auto simp: Lyric_parse_def)
  moreover from False have "\<not> (\<exists>pre post. ln = pre @ CHR ''['' # post \<and> CHR '']'' \<notin> set post)"
    by (simp add: open_from_0_iff unmatched_rstrip)
  ultimately show ?thesis by simp
qed

text \<open>A line whose last chord is not closed raises; an opening bracket inside a chord that
  is closed later does not.\<close>

theorem Lyric_parse_unterminated_witness:
  "Lyric_parse ''so[G]ng [C'' = Inl ValueError
   \<and> Lyric_parse ''a[b[c]d'' = Inr (Lyric [Character ''a'' None, Character ''d'' (Some (Chord ''b[c''))])"
proof -
  have "''so[G]ng [C'' = ''so[G]ng '' @ CHR ''['' # ''C'' \<and> CHR '']'' \<notin> set ''C''" by simp
  then have "\<exists>pre post. ''so[G]ng [C'' = pre @ CHR ''['' # post \<and> CHR '']'' \<notin> set post"
    by blast
  with Lyric_parse_unterminated [of "''so[G]ng [C''"] have "Lyric_parse ''so[G]ng [C'' = Inl ValueError"
    by blast
  moreover have "Lyric_parse ''a[b[c]d'' = Inr (Lyric [Character ''a'' None, Character ''d'' (Some (Chord ''b[c''))])"
    by code_simp
  ultimately show ?thesis by simp
qed

subsection \<open>Trailing whitespace\<close>

text \<open>
  C10. \<open>Lyric_parse\<close> scans \<open>rstrip ln\<close>: appending any run of whitespace characters (space,
  tab, carriage return, line feed and the other characters of \<open>is_space\<close>) to a line does not
  change the result, so such characters give no \<open>Character\<close> tokens, and two lines that differ
  only in their trailing whitespace parse to the same value.
\<close>

theorem Lyric_parse_trailing_whitespace:
  assumes "\<forall>c\<in>set ws. is_space c" "\<forall>c\<in>set ws'. is_space c"
  shows "Lyric_parse (ln @ ws) = Lyric_parse ln \<and> Lyric_parse (ln @ ws) = Lyric_parse (ln @ ws')"
  using assms by (simp add: Lyric_parse_def rstrip_append_space)

theorem Lyric_parse_trailing_whitespace_witness:
  "is_space (CHR '' '') \<and> is_space (CHR 0x09) \<and> is_space (CHR 0x0D) \<and> is_space NL
   \<and> Lyric_parse (''[C]Hi'' @ [CHR '' '', CHR 0x09, CHR 0x0D, NL]) = Lyric_parse ''[C]Hi''
   \<and> Lyric_parse (''[C]Hi'' @ [CHR '' '', CHR 0x09, CHR 0x0D, NL]) = Lyric_parse (''[C]Hi'' @ [NL])
   \<and> Lyric_parse ''[C]Hi'' = Inr (Lyric [Character ''H'' (Some (Chord ''C'')), Character ''i'' None])"
proof -
  have i: "is_space (CHR '' '')" "is_space (CHR 0x09)" "is_space (CHR 0x0D)" "is_space NL"
    by (simp_all add: is_space_def)
  then have sp: "\<forall>c\<in>set [CHR '' '', CHR 0x09, CHR 0x0D, NL]. is_space c"
    and sp': "\<forall>c\<in>set [NL]. is_space c"
    by simp_all
  have p: "Lyric_parse ''[C]Hi'' = Inr (Lyric [Character ''H'' (Some (Chord ''C'')), Character ''i'' None])"
    by code_simp
  from Lyric_parse_trailing_whitespace [OF sp sp', of "''[C]Hi''"] p i show ?thesis
    by blast
qed

section \<open>Fitting a lyric line to the column width\<close>

text \<open>The loop of \<open>lyric_generate_chordsheet\<close> raises only when the transposition of a chord
  of the line raises.\<close>

lemma lyric_step_returns:
  assumes "\<forall>ch. chord_of c = Some ch \<longrightarrow> (\<exists>t. transpose n ch = Inr t)"
  shows "\<exists>st'. lyric_step n st c = Inr st'"
proof (cases "chord_of c")
  case None
  then show ?thesis
    by (simp add: lyric_step_def has_chord_def character_generate_chordsheet_def)
next
  case (Some ch)
  with assms obtain t where "transpose n ch = Inr t" by blast
  with Some show ?thesis
    by (simp add: lyric_step_def has_chord_def character_generate_chordsheet_def
          get_len_transposed_chord_def chord_generate_chordsheet_def)
qed

lemma lyric_loop_returns:
  "\<forall>c\<in>set cs. \<forall>ch. chord_of c = Some ch \<longrightarrow> (\<exists>t. transpose n ch = Inr t) \<Longrightarrow>
   \<exists>st'. lyric_loop n st cs = Inr st'"
proof (induction cs arbitrary: st)
  case Nil
  show ?case by simp
next
  case (Cons c cs)
  then have "\<forall>ch. chord_of c = Some ch \<longrightarrow> (\<exists>t. transpose n ch = Inr t)" by simp
  from lyric_step_returns [OF this, of st] obtain st1 where "lyric_step n st c = Inr st1" by blast
  moreover from Cons obtain st2 where "lyric_loop n st1 cs = Inr st2" by force
  ultimately show ?case by simp
qed

text \<open>
  C5. When every chord of a lyric line can be transposed, the scan ends in a state \<open>st\<close>
  whose \<open>final_total_len\<close> is the computed total width, and the line is rendered as
  \<open>out st\<close> wrapped in the \<^verbatim>\<open>fit\<close> directive exactly when that width is greater than 52:
  wrapped if and only if the width exceeds 52, left as it is if and only if the width is at
  most 52. (When a chord cannot be transposed the call raises and renders nothing.)
\<close>

theorem lyric_fit_threshold:
  assumes "\<forall>c\<in>set cs. \<forall>ch. chord_of c = Some ch \<longrightarrow> (\<exists>t. transpose n ch = Inr t)"
  shows "\<exists>st. lyric_loop n lyric_init cs = Inr st
     \<and> lyric_generate_chordsheet n cs =
         Inr (if final_total_len st > 52 then BS # ''fit{'' @ out st @ ''}'' else out st)
     \<and> (lyric_generate_chordsheet n cs = Inr (BS # ''fit{'' @ out st @ ''}'')) = (final_total_len st > 52)
     \<and> (lyric_generate_chordsheet n cs = Inr (out st)) = (final_total_len st \<le> 52)"
proof -
  from lyric_loop_returns [OF assms, of lyric_init] obtain st where
    st: "lyric_loop n lyric_init cs = Inr st" by blast
  have ne: "BS # ''fit{'' @ out st @ ''}'' \<noteq> out st"
  proof
    assume "BS # ''fit{'' @ out st @ ''}'' = out st"
    then have "length (BS # ''fit{'' @ out st @ ''}'') = length (out st)" by (rule arg_cong)
    then show False by simp
  qed
  have "lyric_generate_chordsheet n cs =
      Inr (if final_total_len st > 52 then BS # ''fit{'' @ out st @ ''}'' else out st)"
    by (simp add: lyric_generate_chordsheet_def st MAX_LENGTH_def)
  with st ne ne [symmetric] show ?thesis
    by (intro exI [of _ st]) auto
qed

text \<open>The boundary: 48 plain characters and a character under a chord of transposed length
  4 have width 52 and are not wrapped; with a chord of length 5 the width is 53 and the line
  is wrapped.\<close>

lemma transpose_Cmaj: "transpose \<lparr>input_notes = notes_sharp, output_notes = notes_sharp, semitones_up = 0\<rparr> (Chord ''Cmaj'') = Inr ''Cmaj''"
  by code_simp

lemma lyric_loop_width_52: "lyric_loop \<lparr>input_notes = notes_sharp, output_notes = notes_sharp, semitones_up = 0\<rparr> lyric_init
        (replicate 48 (Character ''a'' None) @ [Character ''b'' (Some (Chord ''Cmaj''))]) =
      Inr \<lparr>out = replicate 48 (CHR ''a'') @ BS # ''c{Cmaj}b'', characters_since_chord = 1,
           len_last_chord = Some 4, total_len = 49\<rparr>"
  by code_simp


lemma transpose_Cmaj7: "transpose \<lparr>input_notes = notes_sharp, output_notes = notes_sharp, semitones_up = 0\<rparr> (Chord ''Cmaj7'') = Inr ''Cmaj7''"
  by code_simp

lemma lyric_loop_width_53: "lyric_loop \<lparr>input_notes = notes_sharp, output_notes = notes_sharp, semitones_up = 0\<rparr> lyric_init
        (replicate 48 (Character ''a'' None) @ [Character ''b'' (Some (Chord ''Cmaj7''))]) =
      Inr \<lparr>out = replicate 48 (CHR ''a'') @ BS # ''c{Cmaj7}b'', characters_since_chord = 1,
           len_last_chord = Some 5, total_len = 49\<rparr>"
  by code_simp

theorem lyric_fit_threshold_witness:
  "(\<exists>st. lyric_loop \<lparr>input_notes = notes_sharp, output_notes = notes_sharp, semitones_up = 0\<rparr> lyric_init
           (replicate 48 (Character ''a'' None) @ [Character ''b'' (Some (Chord ''Cmaj''))]) = Inr st
        \<and> final_total_len st = 52
        \<and> lyric_generate_chordsheet \<lparr>input_notes = notes_sharp, output_notes = notes_sharp, semitones_up = 0\<rparr>
            (replicate 48 (Character ''a'' None) @ [Character ''b'' (Some (Chord ''Cmaj''))]) = Inr (out st))
   \<and> (\<exists>st. lyric_loop \<lparr>input_notes = notes_sharp, output_notes = notes_sharp, semitones_up = 0\<rparr> lyric_init
           (replicate 48 (Character ''a'' None) @ [Character ''b'' (Some (Chord ''Cmaj7''))]) = Inr st
        \<and> final_total_len st = 53
        \<and> lyric_generate_chordsheet \<lparr>input_notes = notes_sharp, output_notes = notes_sharp, semitones_up = 0\<rparr>
            (replicate 48 (Character ''a'' None) @ [Character ''b'' (Some (Chord ''Cmaj7''))]) =
            Inr (BS # ''fit{'' @ out st @ ''}''))"
proof -
  let ?n = "\<lparr>input_notes = notes_sharp, output_notes = notes_sharp, semitones_up = 0\<rparr>"
  let ?a = "replicate 48 (Character ''a'' None) @ [Character ''b'' (Some (Chord ''Cmaj''))]"
  let ?b = "replicate 48 (Character ''a'' None) @ [Character ''b'' (Some (Chord ''Cmaj7''))]"
  have ha: "\<forall>c\<in>set ?a. \<forall>ch. chord_of c = Some ch \<longrightarrow> (\<exists>t. transpose ?n ch = Inr t)"
    using transpose_Cmaj by simp
  have hb: "\<forall>c\<in>set ?b. \<forall>ch. chord_of c = Some ch \<longrightarrow> (\<exists>t. transpose ?n ch = Inr t)"
    using transpose_Cmaj7 by simp
  from lyric_fit_threshold [OF ha] obtain sa where
    sa: "lyric_loop ?n lyric_init ?a = Inr sa"
      "(lyric_generate_chordsheet ?n ?a = Inr (out sa)) = (final_total_len sa \<le> 52)" by blast
  from sa(1) lyric_loop_width_52 have "final_total_len sa = 52"
    by (auto simp: final_total_len_def)
  with sa have A: "\<exists>st. lyric_loop ?n lyric_init ?a = Inr st \<and> final_total_len st = 52
      \<and> lyric_generate_chordsheet ?n ?a = Inr (out st)" by simp
  from lyric_fit_threshold [OF hb] obtain sb where
    sb: "lyric_loop ?n lyric_init ?b = Inr sb"
      "(lyric_generate_chordsheet ?n ?b = Inr (BS # ''fit{'' @ out sb @ ''}'')) = (final_total_len sb > 52)"
    by blast
  from sb(1) lyric_loop_width_53 have "final_total_len sb = 53"
    by (auto simp: final_total_len_def)
  with sb have B: "\<exists>st. lyric_loop ?n lyric_init ?b = Inr st \<and> final_total_len st = 53
      \<and> lyric_generate_chordsheet ?n ?b = Inr (BS # ''fit{'' @ out st @ ''}'')" by simp
  from A B show ?thesis by (rule conjI)
qed

section \<open>Slides\<close>

text \<open>
  C7. A section whose lines are two lyric lines, a break line and a lyric line gives exactly
  two frames one after the other: the first holds the lyric text of the first two lines with
  a blank line between them, the second the lyric text of the fourth line. The break line
  gives no frame of its own, and an empty run of lines gives the empty string.
\<close>

theorem section_slides_two_frames:
  "section_generate_slides \<lparr>name = nm, lines = [Lyric a, Lyric b, BreakLine, Lyric c]\<rparr> is_first_slide =
     Inr ((BS # ''begin{frame}'' @ [NL] @ BS # ''header'' @ [NL] @ BS # ''begin{center}'' @ [NL] @
           (concat (map get_char a) @ [NL, NL] @ concat (map get_char b)) @
           NL # BS # ''end{center}'' @ [NL] @
           (if is_first_slide then BS # ''cite'' @ [NL] else []) @ BS # ''end{frame}'') @
          (BS # ''begin{frame}'' @ [NL] @ BS # ''header'' @ [NL] @ BS # ''begin{center}'' @ [NL] @
           concat (map get_char c) @
           NL # BS # ''end{center}'' @ [NL] @
           (if is_first_slide then BS # ''cite'' @ [NL] else []) @ BS # ''end{frame}''))
   \<and> create_slide is_first_slide [] = []
   \<and> section_generate_slides \<lparr>name = nm, lines = [Lyric a, Lyric b, BreakLine, Lyric c]\<rparr> is_first_slide =
       Inr (create_slide is_first_slide [Lyric a, Lyric b] @ create_slide is_first_slide [Lyric c])"
  by (simp add: section_generate_slides_def section_has_lyrics_def create_slide_def)

text \<open>
  C6. The claim that only the first frame of the song carries the citation fails on the code:
  the flag \<open>is_first_slide\<close> is handed to the first rendered section as a whole, and
  \<open>create_slide\<close> reads it for every frame of that section. A song whose only section has a
  lyric line, a break line and a lyric line is rendered as two frames, and both carry the
  citation.
\<close>

theorem song_slides_cite_on_every_frame_of_first_section:
  "song_generate_slides
     \<lparr>sections = [''Verse 1'' \<mapsto> \<lparr>name = ''Verse 1'',
                     lines = [Lyric [Character ''a'' None], BreakLine, Lyric [Character ''b'' None]]\<rparr>],
      order = [(''Verse 1'', 1)], key = ''C''\<rparr> True =
   Inr (BS # ''begin{frame}'' @ [NL] @ BS # ''header'' @ [NL] @ BS # ''begin{center}'' @ [NL] @
        ''a'' @ NL # BS # ''end{center}'' @ [NL] @ BS # ''cite'' @ [NL] @ BS # ''end{frame}'' @
        BS # ''begin{frame}'' @ [NL] @ BS # ''header'' @ [NL] @ BS # ''begin{center}'' @ [NL] @
        ''b'' @ NL # BS # ''end{center}'' @ [NL] @ BS # ''cite'' @ [NL] @ BS # ''end{frame}'' @
        [NL, NL])"
  by (simp add: song_generate_slides_def section_generate_slides_def section_has_lyrics_def
        create_slide_def)

section \<open>Repeated sections in the chordsheet\<close>

text \<open>The name \<^verbatim>\<open>Chorus 2\<close> against the patterns of \<open>get_wrapper\<close> and \<open>get_index\<close>, in the
  order in which the source tries them.\<close>

lemma Chorus_2_not_Intro: "re_match (Lit ''Intro'') ''Chorus 2'' = None"
  by code_simp

lemma Chorus_2_not_Verse: "re_match (suffixed (Lit ''Verse'')) ''Chorus 2'' = None"
  by code_simp

lemma Chorus_2_not_Prechorus:
  "re_match (suffixed (Alt (Lit ''Prechorus'') (Alt (Lit ''Pre-chorus'') (Lit ''Pre-Chorus'')))) ''Chorus 2'' = None"
  by code_simp

lemma Chorus_2_is_Chorus: "re_match (suffixed (Lit ''Chorus'')) ''Chorus 2'' = Some ''Chorus 2''"
  by code_simp

lemma Chorus_2_indexed:
  "re_match (Seq (Plus letter) (Seq (Sym (CHR '' '')) digit)) ''Chorus 2'' = Some ''Chorus 2''"
  by code_simp

lemma str_int_2: "str_int 2 = ''2''"
  by code_simp

lemma str_int_3: "str_int 3 = ''3''"
  by code_simp

lemma int_of_digit_2: "int_of_digit (CHR ''2'') = 2"
  by code_simp

lemma get_wrapper_Chorus_2:
  "name s = ''Chorus 2'' \<Longrightarrow> get_wrapper s True = Inr (Repeat (BS # ''rc''))"
  by (simp add: get_wrapper_def Chorus_2_not_Intro Chorus_2_not_Verse Chorus_2_not_Prechorus
        Chorus_2_is_Chorus mk_wrapper_def)

lemma get_index_Chorus_2: "name s = ''Chorus 2'' \<Longrightarrow> get_index s = 2"
  by (simp add: get_index_def Chorus_2_indexed int_of_digit_2)

lemma section_repeat_Chorus_2:
  "name s = ''Chorus 2'' \<Longrightarrow>
   section_generate_chordsheet s n frequency True =
     Inr (if frequency > 1 then BS # ''rc['' @ str_int frequency @ '']{2}'' else BS # ''rc{2}'')"
  by (simp add: section_generate_chordsheet_def get_wrapper_Chorus_2 get_index_Chorus_2 str_int_2)

lemma chordsheet_loop_append:
  "chordsheet_loop secs n (xs @ ys) g acc =
     (case chordsheet_loop secs n xs g acc of
        Inl e \<Rightarrow> Inl e
      | Inr t \<Rightarrow> chordsheet_loop secs n ys (g \<union> fst ` set xs) t)"
proof (induction xs arbitrary: g acc)
  case Nil
  show ?case by simp
next
  case (Cons x xs)
  obtain nm f where x: "x = (nm, f)" by (cases x)
  show ?case
  proof (cases "secs nm")
    case None
    with x show ?thesis by simp
  next
    case (Some s)
    show ?thesis
    proof (cases "section_generate_chordsheet s n f (nm \<in> g)")
      case (Inl e)
      with x Some show ?thesis by simp
    next
      case (Inr t)
      have e: "g \<union> fst ` set (x # xs) = insert nm g \<union> fst ` set xs"
        using x by simp
      from x Some Inr Cons.IH [of "insert nm g" "acc @ t @ [NL, NL]"] show ?thesis
        unfolding e by simp
    qed
  qed
qed

text \<open>
  C8. A section named \<^verbatim>\<open>Chorus 2\<close> that is rendered as a repeated section gives the chorus
  repeat macro \<^verbatim>\<open>\rc\<close> with the index 2 in braces, preceded by the frequency in brackets when
  the frequency is greater than 1: for frequency 3 the text is \<^verbatim>\<open>\rc[3]{2}\<close>. In the loop of
  \<open>song_generate_chordsheet\<close> this is the rendering of every entry \<^verbatim>\<open>Chorus 2\<close> of the
  performance order that comes after an earlier entry of that name.
\<close>

theorem chorus_2_repeat_marker:
  assumes "name s = ''Chorus 2''"
  shows "section_generate_chordsheet s n frequency True =
           Inr (if frequency > 1 then BS # ''rc['' @ str_int frequency @ '']{2}'' else BS # ''rc{2}'')
     \<and> section_generate_chordsheet s n 3 True = Inr (BS # ''rc[3]{2}'')
     \<and> (\<forall>secs pre post acc t.
           secs ''Chorus 2'' = Some s \<longrightarrow> ''Chorus 2'' \<in> fst ` set pre \<longrightarrow>
           chordsheet_loop secs n pre {} acc = Inr t \<longrightarrow>
           chordsheet_loop secs n (pre @ (''Chorus 2'', frequency) # post) {} acc =
           chordsheet_loop secs n post (fst ` set pre)
             (t @ (if frequency > 1 then BS # ''rc['' @ str_int frequency @ '']{2}'' else BS # ''rc{2}'')
                @ [NL, NL]))"
proof (intro conjI allI impI)
  show "section_generate_chordsheet s n frequency True =
      Inr (if frequency > 1 then BS # ''rc['' @ str_int frequency @ '']{2}'' else BS # ''rc{2}'')"
    by (rule section_repeat_Chorus_2 [OF assms])
next
  show "section_generate_chordsheet s n 3 True = Inr (BS # ''rc[3]{2}'')"
    by (simp add: section_repeat_Chorus_2 [OF assms] str_int_3)
next
  fix secs :: "string \<rightharpoonup> Section" and pre post :: "(string \<times> int) list" and acc t :: string
  assume s: "secs ''Chorus 2'' = Some s" and seen: "''Chorus 2'' \<in> fst ` set pre"
    and pre: "chordsheet_loop secs n pre {} acc = Inr t"
  from seen have ins: "insert ''Chorus 2'' (fst ` set pre) = fst ` set pre" by blast
  show "chordsheet_loop secs n (pre @ (''Chorus 2'', frequency) # post) {} acc =
      chordsheet_loop secs n post (fst ` set pre)
        (t @ (if frequency > 1 then BS # ''rc['' @ str_int frequency @ '']{2}'' else BS # ''rc{2}'')
           @ [NL, NL])"
    by (simp add: chordsheet_loop_append pre s seen ins section_repeat_Chorus_2 [OF assms])
qed

text \<open>The order Chorus 2, Chorus 2 (three times): the first entry is rendered in full, the
  second by the repeat macro.\<close>

lemma chordsheet_loop_first_Chorus_2:
  "chordsheet_loop [''Chorus 2'' \<mapsto> \<lparr>name = ''Chorus 2'', lines = []\<rparr>]
     \<lparr>input_notes = notes_sharp, output_notes = notes_sharp, semitones_up = 0\<rparr>
     [(''Chorus 2'', 1)] {} [] =
   Inr (BS # ''bc'' @ [NL] @ [NL] @ BS # ''ec'' @ [NL, NL])"
  by (simp add: section_generate_chordsheet_def get_wrapper_def Chorus_2_not_Intro
        Chorus_2_not_Verse Chorus_2_not_Prechorus Chorus_2_is_Chorus mk_wrapper_def)

theorem chorus_2_repeat_marker_witness:
  "name \<lparr>name = ''Chorus 2'', lines = []\<rparr> = ''Chorus 2''
   \<and> section_generate_chordsheet \<lparr>name = ''Chorus 2'', lines = []\<rparr>
        \<lparr>input_notes = notes_sharp, output_notes = notes_sharp, semitones_up = 0\<rparr> 3 True =
      Inr (BS # ''rc[3]{2}'')
   \<and> chordsheet_loop [''Chorus 2'' \<mapsto> \<lparr>name = ''Chorus 2'', lines = []\<rparr>]
        \<lparr>input_notes = notes_sharp, output_notes = notes_sharp, semitones_up = 0\<rparr>
        [(''Chorus 2'', 1), (''Chorus 2'', 3)] {} [] =
      Inr (BS # ''bc'' @ [NL] @ [NL] @ BS # ''ec'' @ [NL, NL] @ BS # ''rc[3]{2}'' @ [NL, NL])"
proof -
  let ?s = "\<lparr>name = ''Chorus 2'', lines = []\<rparr>"
  let ?n = "\<lparr>input_notes = notes_sharp, output_notes = notes_sharp, semitones_up = 0\<rparr>"
  have nm: "name ?s = ''Chorus 2''" by simp
  note inst = chorus_2_repeat_marker [OF nm, of ?n 3]
  from inst have a: "section_generate_chordsheet ?s ?n 3 True = Inr (BS # ''rc[3]{2}'')" by blast
  from inst have "[''Chorus 2'' \<mapsto> ?s] ''Chorus 2'' = Some ?s \<longrightarrow>
      ''Chorus 2'' \<in> fst ` set [(''Chorus 2'', 1::int)] \<longrightarrow>
      chordsheet_loop [''Chorus 2'' \<mapsto> ?s] ?n [(''Chorus 2'', 1)] {} [] =
        Inr (BS # ''bc'' @ [NL] @ [NL] @ BS # ''ec'' @ [NL, NL]) \<longrightarrow>
      chordsheet_loop [''Chorus 2'' \<mapsto> ?s] ?n ([(''Chorus 2'', 1)] @ (''Chorus 2'', 3) # []) {} [] =
      chordsheet_loop [''Chorus 2'' \<mapsto> ?s] ?n [] (fst ` set [(''Chorus 2'', 1::int)])
        ((BS # ''bc'' @ [NL] @ [NL] @ BS # ''ec'' @ [NL, NL]) @
         (if (3::int) > 1 then BS # ''rc['' @ str_int 3 @ '']{2}'' else BS # ''rc{2}'') @ [NL, NL])"
    by blast
  with chordsheet_loop_first_Chorus_2 have b:
    "chordsheet_loop [''Chorus 2'' \<mapsto> ?s] ?n [(''Chorus 2'', 1), (''Chorus 2'', 3)] {} [] =
      Inr (BS # ''bc'' @ [NL] @ [NL] @ BS # ''ec'' @ [NL, NL] @ BS # ''rc[3]{2}'' @ [NL, NL])"
    by (simp add: str_int_3)
  from nm a b show ?thesis by blast
qed

section \<open>Parsing a music line\<close>

text \<open>
  C4. The claim that no measure comes from the segment after the last bar fails on the code:
  the loop of \<open>MusicLine_parse\<close> skips a segment only when it is exactly a line feed. A music
  line that does not end in a line feed (the last line of a file) has the empty string as its
  last segment, and a line with a repeat annotation has the annotation there; both lines are
  accepted by \<open>is_music_line\<close>, and both get one more measure, holding the chord with the empty
  symbol or the chord \<^verbatim>\<open>(x2)\<close>.
\<close>

theorem music_line_terminal_segment_measure:
  "is_music_line ''| G | C |''
   \<and> MusicLine_parse ''| G | C |'' = MusicLine [[Chord ''G''], [Chord ''C''], [Chord []]]
   \<and> is_music_line (''| G | C | (x2)'' @ [NL])
   \<and> MusicLine_parse (''| G | C | (x2)'' @ [NL]) =
       MusicLine [[Chord ''G''], [Chord ''C''], [Chord ''(x2)'']]
   \<and> is_music_line (''| G | C |'' @ [NL])
   \<and> MusicLine_parse (''| G | C |'' @ [NL]) = MusicLine [[Chord ''G''], [Chord ''C'']]"
  by code_simp

end
